theory Spec2Isabelle
  imports Main "HOL-Library.Word" "HOL-Library.Monad_Syntax"
begin

section \<open>The rewind manager of the emulator (src/common/RewindManager.hxx, .cxx)\<close>

text \<open>
  The class keeps a list of save states (\<open>std::list<RewindPtr> myStateList\<close>, oldest entry
  first, \<open>push_back\<close> appends the newest), an iterator \<open>myCurrentIt\<close> into that list and
  some bookkeeping counters. The integers are the machine integers of the source:
  \<open>uInt64\<close> is \<open>64 word\<close>, \<open>uInt32\<close> is \<open>32 word\<close>, so that \<open>-\<close> wraps around and
  \<open><\<close> is the unsigned comparison. An operation whose C++ behaviour is undefined
  (dereferencing \<open>rend()\<close>, \<open>pop_back\<close> on an empty list, writing past the end of
  \<open>myFrameLst\<close>) returns \<open>None\<close>.
\<close>

subsection \<open>Constants\<close>

text \<open>
  \<open>SINGLE_STEPS\<close>, \<open>SECOND_STEPS\<close> and \<open>MAX_SIZE\<close> are only used as element counts
  (compared with \<open>size()\<close>, passed to \<open>std::advance\<close>), so they are naturals here;
  \<open>MERGE_COUNT\<close> is compared with the \<open>uInt32\<close> run counter and \<open>FRAME_CYCLES\<close> with
  \<open>uInt64\<close> cycle differences.
\<close>

definition FRAME_CYCLES :: "64 word" where
  "FRAME_CYCLES = 76 * 262 * 60"

definition SINGLE_STEPS :: nat where
  "SINGLE_STEPS = 60"

definition SECOND_STEPS :: nat where
  "SECOND_STEPS = 10"

definition MERGE_COUNT :: "32 word" where
  "MERGE_COUNT = 4"

definition MAX_SIZE :: nat where
  "MAX_SIZE = SINGLE_STEPS + (SECOND_STEPS - unat MERGE_COUNT) + 46"

subsection \<open>Data\<close>

text \<open>The \<open>Serializer\<close> of a save state is its byte buffer.\<close>

type_synonym Serializer = "8 word list"

record RewindState =
  data :: Serializer
  cycles :: "64 word"
  frames :: "64 word"

text \<open>
  A list iterator designates a node of the list or the position past the last node.
  \<open>std::list\<close> keeps the past-the-end iterator valid, and equal to \<open>end()\<close>, across every
  insertion, erasure and \<open>clear()\<close>.
\<close>

datatype iterator = Node nat | End

definition list_begin :: "'a list \<Rightarrow> iterator" where
  "list_begin xs = (if xs = [] then End else Node 0)"

record RewindManager =
  myStateList :: "RewindState list"
  myCurrentIt :: iterator
  myFrameLst :: "64 word list"
  myStateCount :: "32 word"
  myLastFrames :: "64 word"

text \<open>
  The collaborators (\<open>OSystem\<close>, its console's TIA, the frame buffer and the
  \<open>StateManager\<close>) are not part of the class. The record holds what they answer when the
  manager asks: \<open>saveState\<close> and \<open>saveDisplay\<close> are the bytes the call appends to the
  serializer, \<open>None\<close> when the call returns false; the three TIA counters
  (\<open>scanlinesLastFrame()\<close> is a \<open>uInt32\<close>); and the text last given to \<open>showMessage\<close>.
\<close>

record OSystem =
  saveState :: "Serializer option"
  saveDisplay :: "Serializer option"
  tia_cycles :: "64 word"
  tia_frameCount :: "64 word"
  tia_scanlinesLastFrame :: "32 word"
  message :: string

subsection \<open>Constructor, \<open>empty\<close>, \<open>clear\<close>\<close>

text \<open>
  The constructor leaves the array \<open>myFrameLst\<close> uninitialised: its \<open>MAX_SIZE\<close> cells
  hold whatever \<open>lst\<close> was in memory.
\<close>

definition RewindManager_ctor :: "64 word list \<Rightarrow> RewindManager" where
  "RewindManager_ctor lst =
     \<lparr>myStateList = [], myCurrentIt = list_begin ([] :: RewindState list),
      myFrameLst = lst, myStateCount = 0, myLastFrames = 0\<rparr>"

definition empty :: "RewindManager \<Rightarrow> bool" where
  "empty m = (length (myStateList m) = 0)"

definition clear :: "RewindManager \<Rightarrow> RewindManager" where
  "clear m = m\<lparr>myStateList := []\<rparr>"

subsection \<open>\<open>getMessage\<close>\<close>

text \<open>\<open>msg << diff\<close> prints an unsigned integer in decimal.\<close>

function showNat :: "nat \<Rightarrow> string" where
  "showNat n = (if n < 10 then [''0123456789'' ! n]
                else showNat (n div 10) @ [''0123456789'' ! (n mod 10)])"
  by pat_completeness auto
termination
  by (relation "measure id") auto

declare showNat.simps [simp del]

definition getMessage :: "OSystem \<Rightarrow> 64 word \<Rightarrow> string" where
  "getMessage sys cylcesTo =
     (let diff0 = tia_cycles sys - cylcesTo;
          msg = (if diff0 < 0 then ''Unwind '' else ''Rewind '');
          diff = (if diff0 < 0 then - diff0 else diff0)
      in if diff < 76 then
           msg @ showNat (unat diff) @ '' cycle(s)''
         else if diff < ucast (76 * tia_scanlinesLastFrame sys) then
           msg @ showNat (unat (diff div 76)) @ '' scanline(s)''
         else if diff < 76 * 262 * 60 then
           msg @ showNat (unat (diff div 76 div 262 div 60)) @ '' frame(s)''
         else if diff < 76 * 262 * 60 * 60 then
           msg @ showNat (unat (diff div 76 div 262 div 60 div 60)) @ '' second(s)''
         else
           msg @ showNat (unat (diff div 76 div 262 div 60 div 60 div 60)) @ '' minute(s)'')"

subsection \<open>\<open>rewindState\<close> and \<open>unwindState\<close>\<close>

text \<open>
  The walk of the reverse iterator \<open>rit\<close> from \<open>rbegin()\<close>: the list argument holds the
  nodes from \<open>rit\<close> to the oldest one, newest first. The loop condition has no test
  against \<open>rend()\<close>; when the nodes run out, \<open>(*rit)->cycles\<close> reads past the list,
  which is \<open>None\<close>. \<open>minDist\<close> is the bound \<open>FRAME_CYCLES * 3 / 4\<close> of the loop.
\<close>

fun rewindSeek :: "bool \<Rightarrow> 64 word \<Rightarrow> 64 word \<Rightarrow> RewindState list \<Rightarrow> RewindState option" where
  "rewindSeek emulation minDist now [] = None"
| "rewindSeek emulation minDist now (r # older) =
     (if emulation \<and> now - cycles r < minDist then rewindSeek emulation minDist now older
      else Some r)"

text \<open>
  \<open>loadState\<close> and \<open>loadDisplay\<close> stand for \<open>StateManager::loadState\<close> and
  \<open>TIA::loadDisplay\<close>: what reading the serializer does to the emulated system.
  The message is computed after both, from the TIA clock as it is then.
\<close>

definition rewindState ::
  "(Serializer \<Rightarrow> OSystem \<Rightarrow> OSystem) \<Rightarrow> (Serializer \<Rightarrow> OSystem \<Rightarrow> OSystem) \<Rightarrow>
   bool \<Rightarrow> OSystem \<Rightarrow> RewindManager \<Rightarrow> (bool \<times> OSystem \<times> RewindManager) option" where
  "rewindState loadState loadDisplay emulation sys m =
     (if length (myStateList m) > 0 then
        (case rewindSeek emulation (FRAME_CYCLES * 3 div 4) (tia_cycles sys) (rev (myStateList m)) of
           None \<Rightarrow> None
         | Some st \<Rightarrow>
             let sys1 = loadState (data st) sys;
                 sys2 = loadDisplay (data st) sys1
             in Some (True, sys2\<lparr>message := getMessage sys2 (cycles st)\<rparr>, m))
      else Some (False, sys, m))"

definition rewindDebuggerState ::
  "(Serializer \<Rightarrow> OSystem \<Rightarrow> OSystem) \<Rightarrow> (Serializer \<Rightarrow> OSystem \<Rightarrow> OSystem) \<Rightarrow>
   OSystem \<Rightarrow> RewindManager \<Rightarrow> (bool \<times> OSystem \<times> RewindManager) option" where
  "rewindDebuggerState loadState loadDisplay = rewindState loadState loadDisplay False"

definition rewindEmulationState ::
  "(Serializer \<Rightarrow> OSystem \<Rightarrow> OSystem) \<Rightarrow> (Serializer \<Rightarrow> OSystem \<Rightarrow> OSystem) \<Rightarrow>
   OSystem \<Rightarrow> RewindManager \<Rightarrow> (bool \<times> OSystem \<times> RewindManager) option" where
  "rewindEmulationState loadState loadDisplay = rewindState loadState loadDisplay True"

definition unwindState :: "bool \<Rightarrow> RewindManager \<Rightarrow> bool \<times> RewindManager" where
  "unwindState debugger m = (if length (myStateList m) > 0 then (True, m) else (False, m))"

definition unwindDebuggerState :: "RewindManager \<Rightarrow> bool \<times> RewindManager" where
  "unwindDebuggerState = unwindState False"

definition unwindEmulationState :: "RewindManager \<Rightarrow> bool \<times> RewindManager" where
  "unwindEmulationState = unwindState True"

subsection \<open>\<open>debugList\<close>\<close>

fun frameSteps :: "64 word \<Rightarrow> RewindState list \<Rightarrow> 64 word list" where
  "frameSteps lastFrames [] = []"
| "frameSteps lastFrames (x # xs) = (frames x - lastFrames) # frameSteps (frames x) xs"

text \<open>
  \<open>debugList\<close> dereferences \<open>begin()\<close> and writes cell \<open>i\<close> of \<open>myFrameLst\<close> for every
  \<open>i < size()\<close>: an empty list or more nodes than cells is undefined behaviour.
\<close>

definition debugList :: "RewindManager \<Rightarrow> RewindManager option" where
  "debugList m =
     (let xs = myStateList m in
      if xs = [] \<or> length (myFrameLst m) < length xs then None
      else Some (m\<lparr>myFrameLst := frameSteps (frames (hd xs)) xs @ drop (length xs) (myFrameLst m)\<rparr>))"

subsection \<open>\<open>compressStates\<close>\<close>

text \<open>\<open>myStateList.erase(it)\<close> for the iterator on node \<open>i\<close>.\<close>

definition erase :: "nat \<Rightarrow> 'a list \<Rightarrow> 'a list" where
  "erase i xs = take i xs @ drop (Suc i) xs"

text \<open>
  The \<open>do ... while(++rit != myStateList.rend())\<close> loop. The first argument counts the
  nodes from \<open>rit\<close> to the oldest one: at \<open>Suc j\<close> the iterator \<open>rit\<close> is on node \<open>j\<close>
  (counted from the oldest, 0), \<open>prevRit\<close> on node \<open>j + 1\<close>, and \<open>ritErase.base()\<close> on
  node \<open>j + 2\<close>, since the base of a reverse iterator is one node nearer to the end than
  the node it designates. Erasing that node leaves \<open>rit\<close> (whose base is node \<open>j + 1\<close>)
  valid. A node that does not exist makes the step undefined.
\<close>

definition stepAt :: "RewindState list \<Rightarrow> nat \<Rightarrow> 32 word" where
  \<comment> \<open>\<open>uInt32 thisStep = (*prevRit)->cycles - (*rit)->cycles\<close> with \<open>rit\<close> on node \<open>j\<close>\<close>
  "stepAt xs j = ucast (cycles (xs ! Suc j) - cycles (xs ! j))"

fun compressLoop ::
  "nat \<Rightarrow> 32 word \<Rightarrow> 32 word \<Rightarrow> RewindState list \<Rightarrow> (32 word \<times> RewindState list) option" where
  "compressLoop 0 lastStep stepCount xs = Some (stepCount, xs)"
| "compressLoop (Suc j) lastStep stepCount xs =
     (if length xs \<le> Suc j then None
      else
        let thisStep = stepAt xs j in
        if thisStep = lastStep then compressLoop j lastStep (stepCount + 1) xs
        else if stepCount \<ge> MERGE_COUNT then
          (if length xs \<le> j + 2 then None
           else compressLoop j thisStep 2 (erase (j + 2) xs))
        else compressLoop j thisStep 1 xs)"

definition compressStates :: "RewindManager \<Rightarrow> RewindManager option" where
  "compressStates m =
     (let xs = myStateList m in
      if length xs \<le> SINGLE_STEPS then None
      else
        case compressLoop (length xs - SINGLE_STEPS) 0 0 xs of
          None \<Rightarrow> None
        | Some (stepCount, ys) \<Rightarrow>
            if stepCount \<ge> MERGE_COUNT \<or> length ys = MAX_SIZE then
              (if length ys < 2 then None
               else debugList (m\<lparr>myStateList := erase 1 ys\<rparr>))
            else debugList (m\<lparr>myStateList := ys\<rparr>))"

subsection \<open>\<open>addState\<close>\<close>

text \<open>
  \<open>while (myCurrentIt != myStateList.end()) myStateList.pop_back();\<close> An iterator on a
  node never compares equal to \<open>end()\<close>: the loop pops until it invalidates the iterator's
  own node and, in the end, pops from an empty list.
\<close>

function discardFollowing :: "iterator \<Rightarrow> RewindState list \<Rightarrow> RewindState list option" where
  "discardFollowing it xs =
     (if it \<noteq> End then (if xs = [] then None else discardFollowing it (butlast xs))
      else Some xs)"
  by pat_completeness auto
termination
  by (relation "measure (\<lambda>(it, xs). length xs)") auto

declare discardFollowing.simps [simp del]

text \<open>
  \<open>myStateManager.saveState(s) && myOSystem.console().tia().saveDisplay(s)\<close>: the second
  call is made only when the first succeeded.
\<close>

definition serialize :: "OSystem \<Rightarrow> Serializer option" where
  "serialize sys =
     (case saveState sys of
        None \<Rightarrow> None
      | Some a \<Rightarrow> (case saveDisplay sys of None \<Rightarrow> None | Some b \<Rightarrow> Some (a @ b)))"

definition addState :: "OSystem \<Rightarrow> RewindManager \<Rightarrow> (bool \<times> RewindManager) option" where
  "addState sys m =
     (case serialize sys of
        None \<Rightarrow> Some (False, m)
      | Some s \<Rightarrow>
          do {
            xs \<leftarrow> discardFollowing (myCurrentIt m) (myStateList m);
            m1 \<leftarrow> (if length xs = MAX_SIZE then compressStates (m\<lparr>myStateList := xs\<rparr>)
                   else Some (m\<lparr>myStateList := xs\<rparr>));
            m2 \<leftarrow> debugList
                   (m1\<lparr>myStateCount := myStateCount m1 + 1,
                       myStateList := myStateList m1 @
                         [\<lparr>data = s, cycles = tia_cycles sys, frames = tia_frameCount sys\<rparr>],
                       myCurrentIt := End\<rparr>);
            m3 \<leftarrow> (if myStateCount m2 mod 250 = 0
                   then debugList (m2\<lparr>myLastFrames := tia_frameCount sys\<rparr>)
                   else Some (m2\<lparr>myLastFrames := tia_frameCount sys\<rparr>));
            Some (True, m3)
          })"

subsection \<open>Reachable states\<close>

text \<open>
  The states of a manager from its construction on, under any sequence of the public
  operations, whatever the collaborators answer. An operation with undefined behaviour
  has no successor state.
\<close>

inductive reachable :: "RewindManager \<Rightarrow> bool" where
  ctor: "length lst = MAX_SIZE \<Longrightarrow> reachable (RewindManager_ctor lst)"
| add: "reachable m \<Longrightarrow> addState sys m = Some (ok, m') \<Longrightarrow> reachable m'"
| rewind: "reachable m \<Longrightarrow> rewindState ld1 ld2 emulation sys m = Some (ok, sys', m') \<Longrightarrow> reachable m'"
| unwind: "reachable m \<Longrightarrow> unwindState debugger m = (ok, m') \<Longrightarrow> reachable m'"
| clr: "reachable m \<Longrightarrow> reachable (clear m)"

definition sorted_cycles :: "RewindState list \<Rightarrow> bool" where
  "sorted_cycles xs = sorted_wrt (\<lambda>a b. cycles a < cycles b) xs"

subsection \<open>Sequences of captures\<close>

text \<open>
  A sequence of \<open>addState\<close> calls, one for each state of the emulated system in the
  list; the success flags are dropped.
\<close>

fun addStates :: "OSystem list \<Rightarrow> RewindManager \<Rightarrow> RewindManager option" where
  "addStates [] m = Some m"
| "addStates (sys # rest) m =
     (case addState sys m of None \<Rightarrow> None | Some (ok, m') \<Rightarrow> addStates rest m')"

text \<open>The save state a successful \<open>addState\<close> builds from the system.\<close>

definition snapshotOf :: "OSystem \<Rightarrow> RewindState" where
  "snapshotOf sys =
     \<lparr>data = the (serialize sys), cycles = tia_cycles sys, frames = tia_frameCount sys\<rparr>"

subsection \<open>A test double for the collaborators\<close>

text \<open>
  For the scenarios: an emulated machine whose whole state is its clock. Saving writes
  the eight bytes of the cycle counter, low byte first, and loading reads them back; the
  display has nothing to save; a frame is 262 scanlines of 76 cycles.
\<close>

definition clockBytes :: "64 word \<Rightarrow> Serializer" where
  "clockBytes c = map (\<lambda>i. ucast (drop_bit (8 * i) c)) [0..<8]"

definition bytesClock :: "Serializer \<Rightarrow> 64 word" where
  "bytesClock s = foldr (\<lambda>b acc. ucast b + 256 * acc) (take 8 s) 0"

definition machineAt :: "64 word \<Rightarrow> OSystem" where
  "machineAt c =
     \<lparr>saveState = Some (clockBytes c), saveDisplay = Some [],
      tia_cycles = c, tia_frameCount = c div (76 * 262),
      tia_scanlinesLastFrame = 262, message = []\<rparr>"

definition loadClock :: "Serializer \<Rightarrow> OSystem \<Rightarrow> OSystem" where
  "loadClock s sys =
     sys\<lparr>saveState := Some (clockBytes (bytesClock s)), tia_cycles := bytesClock s,
         tia_frameCount := bytesClock s div (76 * 262)\<rparr>"

definition loadNothing :: "Serializer \<Rightarrow> OSystem \<Rightarrow> OSystem" where
  "loadNothing s sys = sys"

text \<open>The emulation runs on for \<open>n\<close> cycles.\<close>

definition runCycles :: "64 word \<Rightarrow> OSystem \<Rightarrow> OSystem" where
  "runCycles n sys =
     sys\<lparr>saveState := Some (clockBytes (tia_cycles sys + n)), tia_cycles := tia_cycles sys + n,
         tia_frameCount := (tia_cycles sys + n) div (76 * 262)\<rparr>"

definition freshManager :: RewindManager where
  "freshManager = RewindManager_ctor (replicate MAX_SIZE 0)"

text \<open>The store after captures at the given clock values, from a fresh manager.\<close>

definition storeAt :: "64 word list \<Rightarrow> RewindManager" where
  "storeAt cs = the (addStates (map machineAt cs) freshManager)"

definition uniformClocks :: "nat \<Rightarrow> 64 word list" where
  "uniformClocks n = map (\<lambda>i. 60 * of_nat i) [0..<n]"

section \<open>Auxiliary facts\<close>

lemma MAX_SIZE_eq: "MAX_SIZE = 112"
  by (simp add: MAX_SIZE_def SINGLE_STEPS_def SECOND_STEPS_def MERGE_COUNT_def)

lemma length_erase: "i < length xs \<Longrightarrow> length (erase i xs) = length xs - 1"
  by (simp add: erase_def)

lemma drop_erase:
  assumes "i + n < length xs"
  shows "drop (length (erase i xs) - n) (erase i xs) = drop (length xs - n) xs"
proof -
  define m where "m = length xs - 1 - n"
  have mi: "i \<le> m" and mn: "Suc m = length xs - n"
    using assms by (simp_all add: m_def)
  have li: "length (take i xs) = i" using assms by simp
  have "drop m (take i xs @ drop (Suc i) xs) = drop (m - i) (drop (Suc i) xs)"
    using mi li by simp
  also have "\<dots> = drop (Suc i + (m - i)) xs"
    by (simp only: drop_drop add.commute)
  also have "Suc i + (m - i) = Suc m" using mi by simp
  finally have "drop m (erase i xs) = drop (length xs - n) xs"
    by (simp add: erase_def mn)
  moreover have "length (erase i xs) - n = m"
    using assms by (simp add: length_erase m_def)
  ultimately show ?thesis by simp
qed

lemma unat_Suc_word32: "unat (c :: 32 word) \<le> 112 \<Longrightarrow> unat (c + 1) = unat c + 1"
  by (simp add: unat_word_ariths)

lemma merge_le: "MERGE_COUNT \<le> c \<Longrightarrow> 4 \<le> unat c"
  by (simp add: MERGE_COUNT_def word_le_nat_alt)

lemma compressLoop_inv:
  assumes "unat stepCount + k + SINGLE_STEPS \<le> length xs" "length xs \<le> MAX_SIZE"
  shows "\<exists>cnt ys. compressLoop k lastStep stepCount xs = Some (cnt, ys)
           \<and> length ys \<le> length xs
           \<and> unat cnt + SINGLE_STEPS \<le> length ys
           \<and> drop (length ys - SINGLE_STEPS) ys = drop (length xs - SINGLE_STEPS) xs
           \<and> (length ys = length xs \<longrightarrow> ys = xs)"
  using assms
proof (induction k arbitrary: lastStep stepCount xs)
  case 0
  then show ?case by simp
next
  case (Suc j)
  let ?t = "stepAt xs j"
  have len: "Suc j < length xs" using Suc.prems by (simp add: SINGLE_STEPS_def)
  have cb: "unat stepCount \<le> 112" using Suc.prems by (simp add: MAX_SIZE_eq)
  show ?case
  proof (cases "?t = lastStep")
    case True
    have "unat (stepCount + 1) + j + SINGLE_STEPS \<le> length xs"
      using Suc.prems cb by (simp add: unat_Suc_word32)
    from Suc.IH[OF this Suc.prems(2), of lastStep] show ?thesis
      using True len by simp
  next
    case False
    show ?thesis
    proof (cases "MERGE_COUNT \<le> stepCount")
      case True
      then have four: "4 \<le> unat stepCount" by (rule merge_le)
      have i: "j + 2 + SINGLE_STEPS < length xs" using four Suc.prems by simp
      have l: "length (erase (j + 2) xs) = length xs - 1"
        using i by (simp add: length_erase)
      have p1: "unat (2 :: 32 word) + j + SINGLE_STEPS \<le> length (erase (j + 2) xs)"
        using i l by simp
      have p2: "length (erase (j + 2) xs) \<le> MAX_SIZE" using l Suc.prems by simp
      from Suc.IH[OF p1 p2, of ?t] obtain cnt ys where
        r: "compressLoop j ?t 2 (erase (j + 2) xs) = Some (cnt, ys)"
        and a: "length ys \<le> length (erase (j + 2) xs)"
        and b: "unat cnt + SINGLE_STEPS \<le> length ys"
        and c: "drop (length ys - SINGLE_STEPS) ys
                = drop (length (erase (j + 2) xs) - SINGLE_STEPS) (erase (j + 2) xs)"
        by blast
      have d: "drop (length (erase (j + 2) xs) - SINGLE_STEPS) (erase (j + 2) xs)
               = drop (length xs - SINGLE_STEPS) xs"
        using i by (rule drop_erase)
      have e: "compressLoop (Suc j) lastStep stepCount xs = Some (cnt, ys)"
        using False True len i r by simp
      have f: "length ys \<noteq> length xs" using a l i by simp
      show ?thesis using e a b c d f l by simp
    next
      case nm: False
      have "unat (1 :: 32 word) + j + SINGLE_STEPS \<le> length xs" using Suc.prems by simp
      from Suc.IH[OF this Suc.prems(2), of ?t] show ?thesis
        using False nm len by simp
    qed
  qed
qed

lemma length_frameSteps: "length (frameSteps l xs) = length xs"
  by (induction xs arbitrary: l) simp_all

lemma debugList_ok:
  assumes "myStateList m \<noteq> []" "length (myStateList m) \<le> length (myFrameLst m)"
  shows "\<exists>lst. debugList m = Some (m\<lparr>myFrameLst := lst\<rparr>) \<and> length lst = length (myFrameLst m)"
proof -
  let ?lst = "frameSteps (frames (hd (myStateList m))) (myStateList m)
              @ drop (length (myStateList m)) (myFrameLst m)"
  have "debugList m = Some (m\<lparr>myFrameLst := ?lst\<rparr>)"
    using assms by (simp add: debugList_def Let_def)
  moreover have "length ?lst = length (myFrameLst m)"
    using assms(2) by (simp add: length_frameSteps)
  ultimately show ?thesis by blast
qed

lemma discardFollowing_End: "discardFollowing End xs = Some xs"
  by (simp add: discardFollowing.simps)

text \<open>The loop of \<open>addState\<close> has no regular exit once the cursor is on a node.\<close>

lemma discardFollowing_Node: "discardFollowing (Node i) xs = None"
proof (induction "length xs" arbitrary: xs)
  case 0
  then show ?case by (simp add: discardFollowing.simps)
next
  case (Suc n)
  then have "length (butlast xs) = n" by simp
  with Suc.hyps(1) have "discardFollowing (Node i) (butlast xs) = None" by blast
  then show ?case by (subst discardFollowing.simps) simp
qed

lemma compressStates_ok:
  assumes "SINGLE_STEPS < length (myStateList m)" "length (myStateList m) \<le> MAX_SIZE"
    and "length (myFrameLst m) = MAX_SIZE"
  shows "\<exists>zs lst. compressStates m = Some (m\<lparr>myStateList := zs, myFrameLst := lst\<rparr>)
           \<and> length lst = MAX_SIZE
           \<and> length zs < MAX_SIZE
           \<and> SINGLE_STEPS \<le> length zs
           \<and> drop (length zs - SINGLE_STEPS) zs
               = drop (length (myStateList m) - SINGLE_STEPS) (myStateList m)"
proof -
  let ?xs = "myStateList m"
  have "unat (0 :: 32 word) + (length ?xs - SINGLE_STEPS) + SINGLE_STEPS \<le> length ?xs"
    using assms(1) by simp
  from compressLoop_inv[OF this assms(2), of 0] obtain cnt ys where
    r: "compressLoop (length ?xs - SINGLE_STEPS) 0 0 ?xs = Some (cnt, ys)"
    and a: "length ys \<le> length ?xs"
    and b: "unat cnt + SINGLE_STEPS \<le> length ys"
    and c: "drop (length ys - SINGLE_STEPS) ys = drop (length ?xs - SINGLE_STEPS) ?xs"
    by blast
  show ?thesis
  proof (cases "MERGE_COUNT \<le> cnt \<or> length ys = MAX_SIZE")
    case True
    then have big: "1 + SINGLE_STEPS < length ys"
      using b merge_le[of cnt] by (auto simp: MAX_SIZE_eq SINGLE_STEPS_def)
    let ?zs = "erase 1 ys"
    have l: "length ?zs = length ys - 1" using big by (simp add: length_erase)
    have d: "drop (length ?zs - SINGLE_STEPS) ?zs = drop (length ys - SINGLE_STEPS) ys"
      using big by (rule drop_erase)
    have ne: "myStateList (m\<lparr>myStateList := ?zs\<rparr>) \<noteq> []" using l big by auto
    have le: "length (myStateList (m\<lparr>myStateList := ?zs\<rparr>))
              \<le> length (myFrameLst (m\<lparr>myStateList := ?zs\<rparr>))"
      using l a assms by simp
    from debugList_ok[OF ne le] obtain lst where
      dl: "debugList (m\<lparr>myStateList := ?zs\<rparr>) = Some (m\<lparr>myStateList := ?zs, myFrameLst := lst\<rparr>)"
      and ll: "length lst = MAX_SIZE" using assms(3) by auto
    have "compressStates m = Some (m\<lparr>myStateList := ?zs, myFrameLst := lst\<rparr>)"
      using assms(1) r True big dl by (simp add: compressStates_def Let_def)
    moreover have "length ?zs < MAX_SIZE" using l a assms(2) big by simp
    moreover have "SINGLE_STEPS \<le> length ?zs" using l big by simp
    ultimately show ?thesis using ll c d by auto
  next
    case False
    then have lt: "length ys < MAX_SIZE" using a assms(2) by simp
    have ne: "myStateList (m\<lparr>myStateList := ys\<rparr>) \<noteq> []"
      using b assms(1) by (auto simp: SINGLE_STEPS_def)
    have le: "length (myStateList (m\<lparr>myStateList := ys\<rparr>))
              \<le> length (myFrameLst (m\<lparr>myStateList := ys\<rparr>))"
      using lt assms by simp
    from debugList_ok[OF ne le] obtain lst where
      dl: "debugList (m\<lparr>myStateList := ys\<rparr>) = Some (m\<lparr>myStateList := ys, myFrameLst := lst\<rparr>)"
      and ll: "length lst = MAX_SIZE" using assms(3) by auto
    have "compressStates m = Some (m\<lparr>myStateList := ys, myFrameLst := lst\<rparr>)"
      using assms(1) r False dl by (simp add: compressStates_def Let_def)
    moreover have "SINGLE_STEPS \<le> length ys" using b by simp
    ultimately show ?thesis using ll lt c by auto
  qed
qed

lemma addState_ok:
  assumes c: "myCurrentIt m = End" and l: "length (myStateList m) \<le> MAX_SIZE"
    and f: "length (myFrameLst m) = MAX_SIZE" and s: "serialize sys = Some s"
  shows "\<exists>m' older. addState sys m = Some (True, m')
           \<and> myStateList m' = older @ [\<lparr>data = s, cycles = tia_cycles sys, frames = tia_frameCount sys\<rparr>]
           \<and> myCurrentIt m' = End
           \<and> length (myFrameLst m') = MAX_SIZE
           \<and> length older < MAX_SIZE
           \<and> (length (myStateList m) < MAX_SIZE \<longrightarrow> older = myStateList m)
           \<and> (length (myStateList m) = MAX_SIZE \<longrightarrow>
                SINGLE_STEPS \<le> length older \<and>
                (\<exists>c. compressStates m = Some c \<and> myStateList c = older) \<and>
                drop (length older - SINGLE_STEPS) older
                  = drop (MAX_SIZE - SINGLE_STEPS) (myStateList m))"
proof -
  let ?new = "\<lparr>data = s, cycles = tia_cycles sys, frames = tia_frameCount sys\<rparr>"
  let ?m0 = "m\<lparr>myStateList := myStateList m\<rparr>"
  obtain older lst where
    m1: "(if length (myStateList m) = MAX_SIZE then compressStates ?m0 else Some ?m0)
         = Some (m\<lparr>myStateList := older, myFrameLst := lst\<rparr>)"
    and ll: "length lst = MAX_SIZE" and lo: "length older < MAX_SIZE"
    and same: "length (myStateList m) < MAX_SIZE \<longrightarrow> older = myStateList m"
    and full: "length (myStateList m) = MAX_SIZE \<longrightarrow>
                SINGLE_STEPS \<le> length older \<and>
                (\<exists>c. compressStates m = Some c \<and> myStateList c = older) \<and>
                drop (length older - SINGLE_STEPS) older
                  = drop (MAX_SIZE - SINGLE_STEPS) (myStateList m)"
  proof (cases "length (myStateList m) = MAX_SIZE")
    case True
    have "SINGLE_STEPS < length (myStateList m)"
      using True by (simp add: MAX_SIZE_eq SINGLE_STEPS_def)
    from compressStates_ok[OF this l f] obtain zs lst where
      cs: "compressStates m = Some (m\<lparr>myStateList := zs, myFrameLst := lst\<rparr>)"
      and z: "length lst = MAX_SIZE" "length zs < MAX_SIZE" "SINGLE_STEPS \<le> length zs"
        "drop (length zs - SINGLE_STEPS) zs
          = drop (length (myStateList m) - SINGLE_STEPS) (myStateList m)"
      by blast
    have "myStateList (m\<lparr>myStateList := zs, myFrameLst := lst\<rparr>) = zs" by simp
    with cs have "\<exists>c. compressStates m = Some c \<and> myStateList c = zs" by blast
    with cs z True that[where older=zs and lst=lst] show ?thesis by simp
  next
    case False
    have "?m0 = m\<lparr>myStateList := myStateList m, myFrameLst := myFrameLst m\<rparr>" by simp
    with False l f that[where older="myStateList m" and lst="myFrameLst m"] show ?thesis by simp
  qed
  let ?m1 = "m\<lparr>myStateList := older, myFrameLst := lst\<rparr>"
  let ?p = "?m1\<lparr>myStateCount := myStateCount ?m1 + 1,
                 myStateList := myStateList ?m1 @ [?new], myCurrentIt := End\<rparr>"
  have "myStateList ?p \<noteq> []" "length (myStateList ?p) \<le> length (myFrameLst ?p)"
    using lo ll by simp_all
  from debugList_ok[OF this] obtain lst2 where
    m2: "debugList ?p = Some (?p\<lparr>myFrameLst := lst2\<rparr>)" and l2: "length lst2 = MAX_SIZE"
    using ll by auto
  let ?m2 = "?p\<lparr>myFrameLst := lst2\<rparr>"
  let ?q = "?m2\<lparr>myLastFrames := tia_frameCount sys\<rparr>"
  have "myStateList ?q \<noteq> []" "length (myStateList ?q) \<le> length (myFrameLst ?q)"
    using lo l2 by simp_all
  from debugList_ok[OF this] obtain lst3 where
    m3: "debugList ?q = Some (?q\<lparr>myFrameLst := lst3\<rparr>)" and l3: "length lst3 = MAX_SIZE"
    using l2 by auto
  obtain m3 where
    r3: "(if myStateCount ?m2 mod 250 = 0 then debugList ?q else Some ?q) = Some m3"
    and p3: "myStateList m3 = older @ [?new]" "myCurrentIt m3 = End"
      "length (myFrameLst m3) = MAX_SIZE"
  proof (cases "myStateCount ?m2 mod 250 = 0")
    case True
    with m3 l3 that[of "?q\<lparr>myFrameLst := lst3\<rparr>"] show ?thesis by simp
  next
    case False
    with l2 that[of ?q] show ?thesis by simp
  qed
  have "addState sys m = Some (True, m3)"
    by (simp only: addState_def s c discardFollowing_End m1 m2 r3 option.case
        Option.bind.simps)
  with p3 lo same full show ?thesis by blast
qed

lemma serialize_None_iff:
  "serialize sys = None \<longleftrightarrow> saveState sys = None \<or> saveDisplay sys = None"
  by (simp add: serialize_def split: option.splits)

lemma rewindState_same:
  "rewindState ld1 ld2 emulation sys m = Some (ok, sys', m') \<Longrightarrow> m' = m"
  by (auto simp: rewindState_def Let_def split: if_splits option.splits)

lemma addState_step:
  assumes "myCurrentIt m = End" "length (myStateList m) \<le> MAX_SIZE"
    "length (myFrameLst m) = MAX_SIZE"
  shows "\<exists>ok m'. addState sys m = Some (ok, m') \<and> myCurrentIt m' = End
           \<and> length (myStateList m') \<le> MAX_SIZE \<and> length (myFrameLst m') = MAX_SIZE"
proof (cases "serialize sys")
  case None
  then have "addState sys m = Some (False, m)" by (simp add: addState_def)
  with assms show ?thesis by blast
next
  case (Some s)
  from addState_ok[OF assms Some] obtain m' older where
    "addState sys m = Some (True, m')" "myCurrentIt m' = End"
    "length (myFrameLst m') = MAX_SIZE" "length older < MAX_SIZE"
    "myStateList m' = older @ [\<lparr>data = s, cycles = tia_cycles sys, frames = tia_frameCount sys\<rparr>]"
    by blast
  moreover from this have "length (myStateList m') \<le> MAX_SIZE" by simp
  ultimately show ?thesis by blast
qed

lemma reachable_inv:
  "reachable m \<Longrightarrow>
     myCurrentIt m = End \<and> length (myStateList m) \<le> MAX_SIZE \<and> length (myFrameLst m) = MAX_SIZE"
proof (induction rule: reachable.induct)
  case (ctor lst)
  then show ?case by (simp add: RewindManager_ctor_def list_begin_def)
next
  case (add m sys ok m')
  then have "myCurrentIt m = End" "length (myStateList m) \<le> MAX_SIZE"
    "length (myFrameLst m) = MAX_SIZE" by simp_all
  from addState_step[OF this, of sys] add.hyps(2) show ?case by auto
next
  case (rewind m ld1 ld2 emulation sys ok sys' m')
  then show ?case using rewindState_same by blast
next
  case (unwind m debugger ok m')
  then show ?case by (auto simp: unwindState_def split: if_splits)
next
  case (clr m)
  then show ?case by (simp add: clear_def)
qed

lemma reachable_addStates:
  "reachable m \<Longrightarrow> addStates ss m = Some m' \<Longrightarrow> reachable m'"
proof (induction ss arbitrary: m)
  case Nil
  then show ?case by simp
next
  case (Cons sys rest)
  from Cons.prems(2) obtain ok m1 where
    a: "addState sys m = Some (ok, m1)" and r: "addStates rest m1 = Some m'"
    by (auto split: option.splits)
  from reachable.add[OF Cons.prems(1) a] have "reachable m1" .
  from Cons.IH[OF this r] show ?case .
qed

lemma addStates_total:
  "reachable m \<Longrightarrow> \<exists>m'. addStates ss m = Some m'"
proof (induction ss arbitrary: m)
  case Nil
  then show ?case by simp
next
  case (Cons sys rest)
  from reachable_inv[OF Cons.prems] addState_step[of m sys] obtain ok m1 where
    a: "addState sys m = Some (ok, m1)" by blast
  from reachable.add[OF Cons.prems a] have "reachable m1" .
  from Cons.IH[OF this] a show ?case by simp
qed

lemma snapshotOf_machineAt:
  "snapshotOf (machineAt c) = \<lparr>data = clockBytes c, cycles = c, frames = c div (76 * 262)\<rparr>"
  by (simp add: snapshotOf_def machineAt_def serialize_def)

lemma serialize_machineAt: "serialize (machineAt c) = Some (clockBytes c)"
  by (simp add: machineAt_def serialize_def)

lemma addStates_append:
  assumes "myCurrentIt m = End" "length (myFrameLst m) = MAX_SIZE"
    and "length (myStateList m) + length ss \<le> MAX_SIZE"
    and "\<forall>sys \<in> set ss. serialize sys \<noteq> None"
  shows "\<exists>m'. addStates ss m = Some m' \<and> myStateList m' = myStateList m @ map snapshotOf ss"
  using assms
proof (induction ss arbitrary: m)
  case Nil
  then show ?case by simp
next
  case (Cons sys rest)
  from Cons.prems(4) obtain s where s: "serialize sys = Some s" by auto
  have le: "length (myStateList m) \<le> MAX_SIZE" and lt: "length (myStateList m) < MAX_SIZE"
    using Cons.prems(3) by simp_all
  from addState_ok[OF Cons.prems(1) le Cons.prems(2) s] lt obtain m1 where
    a: "addState sys m = Some (True, m1)"
    and l: "myStateList m1 = myStateList m @ [\<lparr>data = s, cycles = tia_cycles sys, frames = tia_frameCount sys\<rparr>]"
    and c: "myCurrentIt m1 = End" and f: "length (myFrameLst m1) = MAX_SIZE"
    by blast
  have sn: "snapshotOf sys = \<lparr>data = s, cycles = tia_cycles sys, frames = tia_frameCount sys\<rparr>"
    by (simp add: snapshotOf_def s)
  have "length (myStateList m1) + length rest \<le> MAX_SIZE" using l Cons.prems(3) by simp
  moreover have "\<forall>sys \<in> set rest. serialize sys \<noteq> None" using Cons.prems(4) by simp
  ultimately obtain m' where
    "addStates rest m1 = Some m'" "myStateList m' = myStateList m1 @ map snapshotOf rest"
    using Cons.IH[OF c f] by blast
  then show ?case using a l sn by simp
qed

lemma reachable_freshManager: "reachable freshManager"
  unfolding freshManager_def by (rule reachable.ctor) simp

lemma reachable_storeAt: "reachable (storeAt cs)"
proof -
  from addStates_total[OF reachable_freshManager] obtain m' where
    a: "addStates (map machineAt cs) freshManager = Some m'" by blast
  from reachable_addStates[OF reachable_freshManager a] a show ?thesis
    by (simp add: storeAt_def)
qed

lemma myStateList_storeAt:
  assumes "length cs \<le> MAX_SIZE"
  shows "myStateList (storeAt cs) = map (\<lambda>c. \<lparr>data = clockBytes c, cycles = c, frames = c div (76 * 262)\<rparr>) cs"
proof -
  have i: "myCurrentIt freshManager = End" "length (myFrameLst freshManager) = MAX_SIZE"
    "myStateList freshManager = []"
    by (simp_all add: freshManager_def RewindManager_ctor_def list_begin_def)
  have "length (myStateList freshManager) + length (map machineAt cs) \<le> MAX_SIZE"
    using assms i by simp
  moreover have "\<forall>sys \<in> set (map machineAt cs). serialize sys \<noteq> None"
    by (simp add: serialize_machineAt)
  ultimately obtain m' where
    "addStates (map machineAt cs) freshManager = Some m'"
    "myStateList m' = myStateList freshManager @ map snapshotOf (map machineAt cs)"
    using addStates_append[OF i(1) i(2)] by blast
  then show ?thesis by (simp add: storeAt_def i snapshotOf_machineAt comp_def)
qed

lemma rewindSeek_fine: "xs \<noteq> [] \<Longrightarrow> rewindSeek False minDist now (rev xs) = Some (last xs)"
  by (cases xs rule: rev_cases) simp_all

lemma rewindState_fine:
  "myStateList m \<noteq> [] \<Longrightarrow>
     rewindState ld1 ld2 False sys m =
       Some (True,
             (ld2 (data (last (myStateList m))) (ld1 (data (last (myStateList m))) sys))
               \<lparr>message := getMessage
                    (ld2 (data (last (myStateList m))) (ld1 (data (last (myStateList m))) sys))
                    (cycles (last (myStateList m)))\<rparr>,
             m)"
  by (simp add: rewindState_def rewindSeek_fine Let_def)

lemma bytesClock_300: "bytesClock (clockBytes 300) = 300"
  by code_simp

lemma store123:
  "myStateList (storeAt [100, 200, 300]) =
     [\<lparr>data = clockBytes 100, cycles = 100, frames = 0\<rparr>,
      \<lparr>data = clockBytes 200, cycles = 200, frames = 0\<rparr>,
      \<lparr>data = clockBytes 300, cycles = 300, frames = 0\<rparr>]"
  by (simp add: myStateList_storeAt MAX_SIZE_eq)

lemma loadClock_300: "loadClock (clockBytes 300) (machineAt 350) = machineAt 300"
  by (simp add: loadClock_def bytesClock_300 machineAt_def)

lemma message_300: "getMessage (machineAt 300) 300 = ''Rewind 0 cycle(s)''"
  by (simp add: getMessage_def machineAt_def showNat.simps)

lemma fine_rewind_123:
  "rewindState loadClock loadNothing False (machineAt 350) (storeAt [100, 200, 300])
     = Some (True, (machineAt 300)\<lparr>message := ''Rewind 0 cycle(s)''\<rparr>, storeAt [100, 200, 300])"
  by (simp add: rewindState_fine store123 loadNothing_def loadClock_300 message_300)

lemma rewindSeek_skip:
  "\<forall>y \<in> set ys. now - cycles y < minDist \<Longrightarrow>
     rewindSeek True minDist now (ys @ rest) = rewindSeek True minDist now rest"
  by (induction ys) auto

lemma rewindSeek_first:
  assumes "k < length xs" "\<not> now - cycles (xs ! k) < minDist"
    and "\<forall>j. k < j \<and> j < length xs \<longrightarrow> now - cycles (xs ! j) < minDist"
  shows "rewindSeek True minDist now (rev xs) = Some (xs ! k)"
proof -
  have "xs = take k xs @ xs ! k # drop (Suc k) xs"
    using assms(1) by (simp add: id_take_nth_drop)
  then have "rev xs = rev (drop (Suc k) xs) @ xs ! k # rev (take k xs)"
    by (metis rev.simps(2) rev_append append.assoc append_Cons append_Nil)
  moreover have "\<forall>y \<in> set (rev (drop (Suc k) xs)). now - cycles y < minDist"
  proof
    fix y assume "y \<in> set (rev (drop (Suc k) xs))"
    then have "y \<in> set (drop (Suc k) xs)" by simp
    then obtain i where "i < length xs - Suc k" "y = xs ! (Suc k + i)"
      by (auto simp: in_set_conv_nth)
    with assms(3) show "now - cycles y < minDist" by simp
  qed
  ultimately show ?thesis using assms(2) by (simp add: rewindSeek_skip)
qed

lemma rewindState_coarse:
  assumes "k < length (myStateList m)"
    and "\<not> tia_cycles sys - cycles (myStateList m ! k) < FRAME_CYCLES * 3 div 4"
    and "\<forall>j. k < j \<and> j < length (myStateList m) \<longrightarrow>
             tia_cycles sys - cycles (myStateList m ! j) < FRAME_CYCLES * 3 div 4"
  shows "rewindState ld1 ld2 True sys m =
       Some (True,
             (ld2 (data (myStateList m ! k)) (ld1 (data (myStateList m ! k)) sys))
               \<lparr>message := getMessage
                    (ld2 (data (myStateList m ! k)) (ld1 (data (myStateList m ! k)) sys))
                    (cycles (myStateList m ! k))\<rparr>,
             m)"
proof -
  have "myStateList m \<noteq> []" using assms(1) by auto
  with rewindSeek_first[OF assms] show ?thesis
    by (simp add: rewindState_def Let_def)
qed

lemma tia_cycles_machineAt: "tia_cycles (machineAt c) = c"
  by (simp add: machineAt_def)

lemma bytesClock_1000000: "bytesClock (clockBytes 1000000) = 1000000"
  by code_simp

lemma minDist_eq: "FRAME_CYCLES * 3 div 4 = 896040"
  by (simp add: FRAME_CYCLES_def)

lemma store_millions:
  "myStateList (storeAt [0, 1000000, 2000000]) =
     [\<lparr>data = clockBytes 0, cycles = 0, frames = 0\<rparr>,
      \<lparr>data = clockBytes 1000000, cycles = 1000000, frames = 50\<rparr>,
      \<lparr>data = clockBytes 2000000, cycles = 2000000, frames = 100\<rparr>]"
  by (simp add: myStateList_storeAt MAX_SIZE_eq)

lemma message_0: "getMessage (machineAt c) c = ''Rewind 0 cycle(s)''"
  by (simp add: getMessage_def machineAt_def showNat.simps)

lemma loadClock_1000000: "loadClock (clockBytes 1000000) (machineAt 2000000) = machineAt 1000000"
  by (simp add: loadClock_def bytesClock_1000000 machineAt_def)

lemma coarse_rewind_millions:
  "rewindState loadClock loadNothing True (machineAt 2000000) (storeAt [0, 1000000, 2000000])
     = Some (True, (machineAt 1000000)\<lparr>message := ''Rewind 0 cycle(s)''\<rparr>,
             storeAt [0, 1000000, 2000000])"
proof -
  let ?m = "storeAt [0, 1000000, 2000000]"
  have "1 < length (myStateList ?m)" by (simp add: store_millions)
  moreover have "\<not> tia_cycles (machineAt 2000000) - cycles (myStateList ?m ! 1)
                  < FRAME_CYCLES * 3 div 4"
    by (simp add: store_millions tia_cycles_machineAt minDist_eq)
  moreover have "\<forall>j. 1 < j \<and> j < length (myStateList ?m) \<longrightarrow>
      tia_cycles (machineAt 2000000) - cycles (myStateList ?m ! j) < FRAME_CYCLES * 3 div 4"
  proof (intro allI impI)
    fix j assume "1 < j \<and> j < length (myStateList ?m)"
    then have "j = 2" by (simp add: store_millions)
    then show "tia_cycles (machineAt 2000000) - cycles (myStateList ?m ! j)
                < FRAME_CYCLES * 3 div 4"
      by (simp add: store_millions tia_cycles_machineAt minDist_eq)
  qed
  ultimately show ?thesis
    using rewindState_coarse[of 1 ?m "machineAt 2000000" loadClock loadNothing]
    by (simp add: store_millions loadNothing_def loadClock_1000000 message_0)
qed

text \<open>
  When no save state is far enough from the present, the walk of \<open>rewindState\<close> leaves
  the list: it reads \<open>(*rit)->cycles\<close> at \<open>rend()\<close>.
\<close>

lemma rewindSeek_all_near:
  "\<forall>r \<in> set rs. now - cycles r < minDist \<Longrightarrow> rewindSeek True minDist now rs = None"
  by (induction rs) auto

lemma rewindState_coarse_none:
  assumes "myStateList m \<noteq> []"
    and "\<forall>r \<in> set (myStateList m). tia_cycles sys - cycles r < FRAME_CYCLES * 3 div 4"
  shows "rewindState ld1 ld2 True sys m = None"
proof -
  have "rewindSeek True (FRAME_CYCLES * 3 div 4) (tia_cycles sys) (rev (myStateList m)) = None"
    using assms(2) by (intro rewindSeek_all_near) simp
  with assms(1) show ?thesis by (simp add: rewindState_def)
qed

lemma compressLoop_uniform:
  assumes "k < length xs" "\<forall>i<k. stepAt xs i = s"
  shows "compressLoop k s cnt xs = Some (cnt + of_nat k, xs)"
  using assms
proof (induction k arbitrary: cnt)
  case 0
  then show ?case by simp
next
  case (Suc j)
  then have "compressLoop j s (cnt + 1) xs = Some (cnt + 1 + of_nat j, xs)" by simp
  with Suc.prems show ?case by (simp add: add.assoc add.commute)
qed

lemma compressLoop_uniform_scan:
  assumes "Suc j < length xs" "\<forall>i\<le>j. stepAt xs i = s"
  shows "compressLoop (Suc j) 0 0 xs = Some (of_nat (Suc j), xs)"
proof -
  have u: "compressLoop j s cnt xs = Some (cnt + of_nat j, xs)" for cnt
    using assms by (intro compressLoop_uniform) simp_all
  have sj: "stepAt xs j = s" using assms(2) by simp
  show ?thesis
  proof (cases "s = 0")
    case True
    with u[of 1] sj assms(1) show ?thesis by (simp add: add.commute)
  next
    case False
    have "\<not> MERGE_COUNT \<le> 0" by (simp add: MERGE_COUNT_def)
    with False u[of 1] sj assms(1) show ?thesis by (simp add: add.commute)
  qed
qed

lemma compressLoop_run:
  assumes "Suc (j + r) < length xs" "\<forall>i. j < i \<and> i \<le> j + r \<longrightarrow> stepAt xs i = s"
  shows "compressLoop (Suc (j + r)) s cnt xs = compressLoop (Suc j) s (cnt + of_nat r) xs"
  using assms
proof (induction r arbitrary: cnt)
  case 0
  then show ?case by simp
next
  case (Suc r)
  have "stepAt xs (j + Suc r) = s" using Suc.prems(2) by simp
  then have "compressLoop (Suc (j + Suc r)) s cnt xs = compressLoop (Suc (j + r)) s (cnt + 1) xs"
    using Suc.prems(1) by simp
  also have "\<dots> = compressLoop (Suc j) s (cnt + 1 + of_nat r) xs"
    using Suc.prems by (intro Suc.IH) simp_all
  also have "cnt + 1 + of_nat r = cnt + of_nat (Suc r)" by simp
  finally show ?case .
qed

lemma compressLoop_run_end:
  assumes "Suc (j + r) < length xs" "j + 2 < length xs"
    and "\<forall>i. j < i \<and> i \<le> j + r \<longrightarrow> stepAt xs i = s" "stepAt xs j \<noteq> s"
  shows "compressLoop (Suc (j + r)) s cnt xs =
           (if MERGE_COUNT \<le> cnt + of_nat r
            then compressLoop j (stepAt xs j) 2 (erase (j + 2) xs)
            else compressLoop j (stepAt xs j) 1 xs)"
proof -
  have "compressLoop (Suc (j + r)) s cnt xs = compressLoop (Suc j) s (cnt + of_nat r) xs"
    using assms(1,3) by (rule compressLoop_run)
  also have "\<dots> = (if MERGE_COUNT \<le> cnt + of_nat r
            then compressLoop j (stepAt xs j) 2 (erase (j + 2) xs)
            else compressLoop j (stepAt xs j) 1 xs)"
    using assms(2,4) by (simp add: Let_def)
  finally show ?thesis .
qed

lemma nth_uniformClocks: "i < n \<Longrightarrow> uniformClocks n ! i = 60 * of_nat i"
  by (simp add: uniformClocks_def)

lemma stepAt_uniform:
  assumes "Suc i < n" "n \<le> MAX_SIZE"
  shows "stepAt (myStateList (storeAt (uniformClocks n))) i = 60"
proof -
  have l: "length (uniformClocks n) = n" by (simp add: uniformClocks_def)
  have "(60 :: 64 word) * of_nat (Suc i) - 60 * of_nat i = 60" by (simp add: algebra_simps)
  then show ?thesis
    using assms by (simp add: stepAt_def myStateList_storeAt l nth_uniformClocks del: of_nat_Suc)
qed

lemma length_store_uniform:
  "n \<le> MAX_SIZE \<Longrightarrow> length (myStateList (storeAt (uniformClocks n))) = n"
  by (simp add: myStateList_storeAt uniformClocks_def)

lemma scan_uniform_full:
  "compressLoop (MAX_SIZE - SINGLE_STEPS) 0 0 (myStateList (storeAt (uniformClocks MAX_SIZE)))
     = Some (52, myStateList (storeAt (uniformClocks MAX_SIZE)))"
proof -
  let ?xs = "myStateList (storeAt (uniformClocks MAX_SIZE))"
  have "Suc 51 < length ?xs" by (simp add: length_store_uniform MAX_SIZE_eq)
  moreover have "\<forall>i\<le>51. stepAt ?xs i = 60"
    by (simp add: stepAt_uniform MAX_SIZE_eq)
  ultimately have "compressLoop (Suc 51) 0 0 ?xs = Some (of_nat (Suc 51), ?xs)"
    by (rule compressLoop_uniform_scan)
  moreover have "MAX_SIZE - SINGLE_STEPS = Suc 51" by (simp add: MAX_SIZE_eq SINGLE_STEPS_def)
  ultimately show ?thesis by simp
qed

lemma compress_uniform_full:
  "\<exists>c. compressStates (storeAt (uniformClocks MAX_SIZE)) = Some c
       \<and> myStateList c = erase 1 (myStateList (storeAt (uniformClocks MAX_SIZE)))"
proof -
  let ?m = "storeAt (uniformClocks MAX_SIZE)"
  let ?xs = "myStateList ?m"
  have l: "length ?xs = MAX_SIZE" by (simp add: length_store_uniform)
  have f: "length (myFrameLst ?m) = MAX_SIZE" using reachable_inv[OF reachable_storeAt] by blast
  let ?p = "?m\<lparr>myStateList := erase 1 ?xs\<rparr>"
  have le: "length (erase 1 ?xs) = MAX_SIZE - 1" using l by (simp add: length_erase MAX_SIZE_eq)
  have "myStateList ?p \<noteq> []" using le by (auto simp: MAX_SIZE_eq)
  moreover have "length (myStateList ?p) \<le> length (myFrameLst ?p)" using le f by simp
  ultimately obtain lst where d: "debugList ?p = Some (?p\<lparr>myFrameLst := lst\<rparr>)"
    using debugList_ok by blast
  have m: "MERGE_COUNT \<le> 52" by (simp add: MERGE_COUNT_def)
  have "compressStates ?m = Some (?p\<lparr>myFrameLst := lst\<rparr>)"
    using scan_uniform_full l d m
    by (simp add: compressStates_def Let_def MAX_SIZE_eq SINGLE_STEPS_def)
  then show ?thesis by simp
qed

lemma store_run:
  "myStateList (storeAt [0, 100, 160, 220, 280, 340, 400]) =
     map (\<lambda>c. \<lparr>data = clockBytes c, cycles = c, frames = c div (76 * 262)\<rparr>)
       [0, 100, 160, 220, 280, 340, 400]"
  by (simp add: myStateList_storeAt MAX_SIZE_eq)

lemma cycles_store_uniform:
  "n \<le> MAX_SIZE \<Longrightarrow> map cycles (myStateList (storeAt (uniformClocks n))) = uniformClocks n"
  by (simp add: myStateList_storeAt uniformClocks_def comp_def)

lemma addState_full_uniform:
  "\<exists>m'. addState (machineAt 6720) (storeAt (uniformClocks MAX_SIZE)) = Some (True, m')
        \<and> length (myStateList m') = MAX_SIZE"
proof -
  let ?m = "storeAt (uniformClocks MAX_SIZE)"
  have l: "length (myStateList ?m) = MAX_SIZE" by (simp add: length_store_uniform)
  from reachable_inv[OF reachable_storeAt, of "uniformClocks MAX_SIZE"]
  have c: "myCurrentIt ?m = End" and le: "length (myStateList ?m) \<le> MAX_SIZE"
    and f: "length (myFrameLst ?m) = MAX_SIZE" by simp_all
  from addState_ok[OF c le f serialize_machineAt, of 6720] l obtain m' older cc where
    a: "addState (machineAt 6720) ?m = Some (True, m')"
    and b: "myStateList m' = older @ [\<lparr>data = clockBytes 6720, cycles = tia_cycles (machineAt 6720),
              frames = tia_frameCount (machineAt 6720)\<rparr>]"
    and d: "compressStates ?m = Some cc" "myStateList cc = older"
    by blast
  from compress_uniform_full d have "older = erase 1 (myStateList ?m)" by auto
  then have "length older = MAX_SIZE - 1" using l by (simp add: length_erase MAX_SIZE_eq)
  with a b show ?thesis by (simp add: MAX_SIZE_eq)
qed

section \<open>The claims\<close>

subsection \<open>C1: the fine rewind\<close>




subsection \<open>C2: the coarse rewind\<close>

text \<open>
  Claim C2. On a store that is not empty the coarse rewind (\<open>rewindEmulationState\<close>,
  \<open>rewindState\<close> with \<open>emulation = true\<close>) walks from the newest save state towards the
  oldest and restores the first one far enough from the present, or the oldest one when
  no save state is far enough; with save states at cycles 100, 200 and 300 and the
  present at 300 it restores one of them. The code has no such fallback: the loop
  \<open>while(emulation && cycles() - (*rit)->cycles < FRAME_CYCLES * 3 / 4) rit++\<close> never
  compares \<open>rit\<close> with \<open>rend()\<close>, and its minimum distance is the constant 896040. On
  the store of the claim no save state is that far from the present, so the walk passes
  the oldest save state and reads \<open>(*rit)->cycles\<close> past the list: the call restores
  nothing and its behaviour is undefined.
\<close>

theorem coarse_rewind_no_fallback:
  "map cycles (myStateList (storeAt [100, 200, 300])) = [100, 200, 300]
   \<and> tia_cycles (machineAt 300) = 300
   \<and> FRAME_CYCLES * 3 div 4 = 896040
   \<and> rewindState loadClock loadNothing True (machineAt 300) (storeAt [100, 200, 300]) = None
   \<and> rewindEmulationState loadClock loadNothing (machineAt 300) (storeAt [100, 200, 300]) = None"
proof -
  let ?m = "storeAt [100, 200, 300]"
  have ne: "myStateList ?m \<noteq> []" by (simp add: store123)
  have near: "\<forall>r \<in> set (myStateList ?m).
      tia_cycles (machineAt 300) - cycles r < FRAME_CYCLES * 3 div 4"
    by (simp add: store123 tia_cycles_machineAt minDist_eq)
  have none: "rewindState loadClock loadNothing True (machineAt 300) ?m = None"
    using ne near by (rule rewindState_coarse_none)
  have cy: "map cycles (myStateList ?m) = [100, 200, 300]" by (simp add: store123)
  from cy none show ?thesis
    by (simp add: rewindEmulationState_def tia_cycles_machineAt minDist_eq)
qed

subsection \<open>C3: what a compaction keeps\<close>

text \<open>
  Claim C3, as amended. When the store holds \<open>MAX_SIZE\<close> save states, as the manager
  reaches it, \<open>compressStates\<close> returns a store of fewer than \<open>MAX_SIZE\<close> save states
  whose \<open>SINGLE_STEPS\<close> newest ones are the \<open>SINGLE_STEPS\<close> newest ones from before,
  bytes and counters; a successful \<open>addState\<close> then holds the compacted store followed
  by the new save state, at most \<open>MAX_SIZE\<close> in all. With uniform 60-cycle spacing the
  compaction removes one save state and the store is back at exactly \<open>MAX_SIZE\<close> after
  the call (not strictly below it).
\<close>

theorem compaction_keeps_recent:
  assumes "reachable m" "length (myStateList m) = MAX_SIZE" "serialize sys = Some s"
  shows "\<exists>c m'. compressStates m = Some c
           \<and> length (myStateList c) < MAX_SIZE
           \<and> drop (length (myStateList c) - SINGLE_STEPS) (myStateList c)
               = drop (MAX_SIZE - SINGLE_STEPS) (myStateList m)
           \<and> addState sys m = Some (True, m')
           \<and> myStateList m' = myStateList c
               @ [\<lparr>data = s, cycles = tia_cycles sys, frames = tia_frameCount sys\<rparr>]
           \<and> length (myStateList m') \<le> MAX_SIZE"
proof -
  from reachable_inv[OF assms(1)]
  have c: "myCurrentIt m = End" and le: "length (myStateList m) \<le> MAX_SIZE"
    and f: "length (myFrameLst m) = MAX_SIZE" by simp_all
  from addState_ok[OF c le f assms(3)] assms(2) obtain m' older cc where
    a: "addState sys m = Some (True, m')"
    and b: "myStateList m' = older @ [\<lparr>data = s, cycles = tia_cycles sys, frames = tia_frameCount sys\<rparr>]"
    and lo: "length older < MAX_SIZE"
    and d: "compressStates m = Some cc" "myStateList cc = older"
    and k: "drop (length older - SINGLE_STEPS) older = drop (MAX_SIZE - SINGLE_STEPS) (myStateList m)"
    by blast
  have "length (myStateList m') \<le> MAX_SIZE" using b lo by simp
  with a b lo d k show ?thesis by blast
qed

theorem compaction_keeps_recent_witness:
  "reachable (storeAt (uniformClocks MAX_SIZE))
   \<and> length (myStateList (storeAt (uniformClocks MAX_SIZE))) = MAX_SIZE
   \<and> serialize (machineAt 6720) = Some (clockBytes 6720)
   \<and> (\<exists>c m'. compressStates (storeAt (uniformClocks MAX_SIZE)) = Some c
         \<and> length (myStateList c) = MAX_SIZE - 1
         \<and> drop (length (myStateList c) - SINGLE_STEPS) (myStateList c)
             = drop (MAX_SIZE - SINGLE_STEPS) (myStateList (storeAt (uniformClocks MAX_SIZE)))
         \<and> addState (machineAt 6720) (storeAt (uniformClocks MAX_SIZE)) = Some (True, m')
         \<and> myStateList m' = myStateList c @ [\<lparr>data = clockBytes 6720, cycles = 6720, frames = 0\<rparr>]
         \<and> length (myStateList m') = MAX_SIZE)"
proof -
  let ?m = "storeAt (uniformClocks MAX_SIZE)"
  have r: "reachable ?m" by (rule reachable_storeAt)
  have l: "length (myStateList ?m) = MAX_SIZE" by (simp add: length_store_uniform)
  have s: "serialize (machineAt 6720) = Some (clockBytes 6720)" by (rule serialize_machineAt)
  from compaction_keeps_recent[OF r l s] obtain c m' where
    p: "compressStates ?m = Some c"
      "drop (length (myStateList c) - SINGLE_STEPS) (myStateList c)
         = drop (MAX_SIZE - SINGLE_STEPS) (myStateList ?m)"
      "addState (machineAt 6720) ?m = Some (True, m')"
    and q: "myStateList m' = myStateList c
         @ [\<lparr>data = clockBytes 6720, cycles = tia_cycles (machineAt 6720),
              frames = tia_frameCount (machineAt 6720)\<rparr>]"
    by blast
  from compress_uniform_full p(1) have "myStateList c = erase 1 (myStateList ?m)" by auto
  then have lc: "length (myStateList c) = MAX_SIZE - 1"
    using l by (simp add: length_erase MAX_SIZE_eq)
  have q': "myStateList m' = myStateList c @ [\<lparr>data = clockBytes 6720, cycles = 6720, frames = 0\<rparr>]"
    using q by (simp add: machineAt_def)
  then have "length (myStateList m') = MAX_SIZE" using lc by (simp add: MAX_SIZE_eq)
  with p q' lc have "\<exists>c m'. compressStates ?m = Some c
         \<and> length (myStateList c) = MAX_SIZE - 1
         \<and> drop (length (myStateList c) - SINGLE_STEPS) (myStateList c)
             = drop (MAX_SIZE - SINGLE_STEPS) (myStateList ?m)
         \<and> addState (machineAt 6720) ?m = Some (True, m')
         \<and> myStateList m' = myStateList c @ [\<lparr>data = clockBytes 6720, cycles = 6720, frames = 0\<rparr>]
         \<and> length (myStateList m') = MAX_SIZE"
    by blast
  with r l s show ?thesis by blast
qed

text \<open>
  The claim as written fails: after the full store of uniform 60-cycle spacing takes
  one more save state, its size is \<open>MAX_SIZE\<close>, not less.
\<close>

theorem compaction_size_counterexample:
  "map cycles (myStateList (storeAt (uniformClocks MAX_SIZE))) = uniformClocks MAX_SIZE
   \<and> length (myStateList (storeAt (uniformClocks MAX_SIZE))) = MAX_SIZE
   \<and> (\<exists>m'. addState (machineAt 6720) (storeAt (uniformClocks MAX_SIZE)) = Some (True, m')
          \<and> length (myStateList m') = MAX_SIZE)
   \<and> \<not> (\<exists>m'. addState (machineAt 6720) (storeAt (uniformClocks MAX_SIZE)) = Some (True, m')
          \<and> length (myStateList m') < MAX_SIZE)"
proof -
  from addState_full_uniform obtain m' where
    a: "addState (machineAt 6720) (storeAt (uniformClocks MAX_SIZE)) = Some (True, m')"
    and l: "length (myStateList m') = MAX_SIZE" by blast
  then have "\<not> (\<exists>m'. addState (machineAt 6720) (storeAt (uniformClocks MAX_SIZE)) = Some (True, m')
          \<and> length (myStateList m') < MAX_SIZE)" by auto
  with a l show ?thesis
    by (simp add: cycles_store_uniform length_store_uniform)
qed

subsection \<open>C4: the capacity\<close>

text \<open>
  Claim C4. The list never holds more than \<open>MAX_SIZE\<close> save states: in every state
  the manager reaches from its construction by \<open>addState\<close>, \<open>rewindState\<close>,
  \<open>unwindState\<close> and \<open>clear\<close>, and after every further sequence of \<open>addState\<close>
  calls, each of which completes.
\<close>

theorem capacity_bound:
  "reachable m \<Longrightarrow>
     length (myStateList m) \<le> MAX_SIZE
     \<and> (\<exists>m'. addStates ss m = Some m' \<and> length (myStateList m') \<le> MAX_SIZE)"
proof -
  assume r: "reachable m"
  from addStates_total[OF r] obtain m' where a: "addStates ss m = Some m'" by blast
  from reachable_addStates[OF r a] have "reachable m'" .
  with r a show ?thesis using reachable_inv by blast
qed

theorem capacity_bound_witness:
  "reachable freshManager
   \<and> length (myStateList freshManager) \<le> MAX_SIZE
   \<and> (\<exists>m'. addStates (map machineAt (uniformClocks 500)) freshManager = Some m'
          \<and> length (myStateList m') \<le> MAX_SIZE)"
  using capacity_bound[OF reachable_freshManager, of "map machineAt (uniformClocks 500)"]
    reachable_freshManager
  by simp

subsection \<open>C5: the order of the cycle counts\<close>

text \<open>
  Claim C5. In every reachable state the cycle counts of the save states strictly
  increase from the oldest to the newest, also when an \<open>addState\<close> follows a rewind.
  The code does not keep this: \<open>rewindState\<close> leaves the cursor at the tail, so the
  loop of \<open>addState\<close> that should discard the save states after the rewind point
  discards nothing. After captures at cycles 0, 1000000 and 2000000, a coarse rewind
  sets the clock back to 1000000; 100 cycles later \<open>addState\<close> appends a save state of
  cycle 1000100 behind the one of cycle 2000000.
\<close>

theorem rewind_then_add_not_monotonic:
  "\<exists>sys' m'.
     rewindState loadClock loadNothing True (machineAt 2000000) (storeAt [0, 1000000, 2000000])
       = Some (True, sys', storeAt [0, 1000000, 2000000])
     \<and> tia_cycles sys' = 1000000
     \<and> addState (runCycles 100 sys') (storeAt [0, 1000000, 2000000]) = Some (True, m')
     \<and> map cycles (myStateList m') = [0, 1000000, 2000000, 1000100]
     \<and> reachable m'
     \<and> \<not> sorted_cycles (myStateList m')"
proof -
  let ?m = "storeAt [0, 1000000, 2000000]"
  let ?sys' = "(machineAt 1000000)\<lparr>message := ''Rewind 0 cycle(s)''\<rparr>"
  have r: "reachable ?m" by (rule reachable_storeAt)
  from reachable_inv[OF r]
  have c: "myCurrentIt ?m = End" and le: "length (myStateList ?m) \<le> MAX_SIZE"
    and f: "length (myFrameLst ?m) = MAX_SIZE" by simp_all
  have lt: "length (myStateList ?m) < MAX_SIZE" by (simp add: store_millions MAX_SIZE_eq)
  have s: "serialize (runCycles 100 ?sys') = Some (clockBytes 1000100)"
    by (simp add: serialize_def runCycles_def machineAt_def)
  from addState_ok[OF c le f s] lt obtain m' where
    a: "addState (runCycles 100 ?sys') ?m = Some (True, m')"
    and b: "myStateList m' = myStateList ?m @ [\<lparr>data = clockBytes 1000100,
              cycles = tia_cycles (runCycles 100 ?sys'),
              frames = tia_frameCount (runCycles 100 ?sys')\<rparr>]"
    by blast
  have cy: "map cycles (myStateList m') = [0, 1000000, 2000000, 1000100]"
    using b by (simp add: store_millions runCycles_def machineAt_def)
  have ns: "\<not> sorted_cycles (myStateList m')"
    using b by (simp add: sorted_cycles_def store_millions runCycles_def machineAt_def)
  have rm: "reachable m'" using reachable.add[OF r a] .
  have t: "tia_cycles ?sys' = 1000000" by (simp add: machineAt_def)
  show ?thesis
    by (rule exI[of _ ?sys'], rule exI[of _ m'])
      (simp only: coarse_rewind_millions t a cy rm ns simp_thms)
qed

subsection \<open>C6: when the scan of \<open>compressStates\<close> evicts\<close>

text \<open>
  Claim C6, as amended. In the scan of \<open>compressStates\<close> from the entry after the
  \<open>SINGLE_STEPS\<close> newest ones towards the oldest, a pair whose step equals the step of
  the pair before it only adds one to the run counter. An entry is evicted only at a
  pair whose step differs from the step of the run before it, and only when the counter
  has reached \<open>MERGE_COUNT\<close> by then: the entry two places newer than the scan
  position goes, which lies inside the run that just ended, and the counter goes on
  from 2 for the new step; when the counter is below \<open>MERGE_COUNT\<close> it goes on from 1.
  So a uniformly spaced run, however long, yields no eviction while the scan is inside
  it: the scan of a store whose scanned pairs all have the same step returns the store
  as it was, with the counter at the number of pairs.
\<close>

theorem compaction_evicts_at_run_end:
  "(Suc k < length ys \<and> (\<forall>i\<le>k. stepAt ys i = d) \<longrightarrow>
      compressLoop (Suc k) 0 0 ys = Some (of_nat (Suc k), ys))
   \<and> (Suc (j + r) < length xs \<and> j + 2 < length xs
        \<and> (\<forall>i. j < i \<and> i \<le> j + r \<longrightarrow> stepAt xs i = s) \<and> stepAt xs j \<noteq> s \<longrightarrow>
      compressLoop (Suc (j + r)) s cnt xs =
        (if MERGE_COUNT \<le> cnt + of_nat r
         then compressLoop j (stepAt xs j) 2 (erase (j + 2) xs)
         else compressLoop j (stepAt xs j) 1 xs))"
  using compressLoop_uniform_scan[of k ys d] compressLoop_run_end[of j r xs s cnt]
  by blast

theorem compaction_evicts_at_run_end_witness:
  "compressLoop 52 0 0 (myStateList (storeAt (uniformClocks MAX_SIZE)))
     = Some (52, myStateList (storeAt (uniformClocks MAX_SIZE)))
   \<and> compressLoop 5 60 1 (myStateList (storeAt [0, 100, 160, 220, 280, 340, 400]))
     = Some (2, erase 2 (myStateList (storeAt [0, 100, 160, 220, 280, 340, 400])))
   \<and> map cycles (erase 2 (myStateList (storeAt [0, 100, 160, 220, 280, 340, 400])))
     = [0, 100, 220, 280, 340, 400]"
proof -
  let ?ys = "myStateList (storeAt (uniformClocks MAX_SIZE))"
  let ?xs = "myStateList (storeAt [0, 100, 160, 220, 280, 340, 400])"
  have y1: "Suc 51 < length ?ys" by (simp add: length_store_uniform MAX_SIZE_eq)
  have y2: "\<forall>i\<le>51. stepAt ?ys i = 60" by (simp add: stepAt_uniform MAX_SIZE_eq)
  have x1: "Suc (0 + 4) < length ?xs" and x2: "0 + 2 < length ?xs"
    by (simp_all add: store_run)
  have x3: "\<forall>i. 0 < i \<and> i \<le> 0 + 4 \<longrightarrow> stepAt ?xs i = 60"
  proof (intro allI impI)
    fix i :: nat assume "0 < i \<and> i \<le> 0 + 4"
    then have "i = 1 \<or> i = 2 \<or> i = 3 \<or> i = 4" by arith
    then show "stepAt ?xs i = 60" by (auto simp: stepAt_def store_run)
  qed
  have x4: "stepAt ?xs 0 \<noteq> 60" by (simp add: stepAt_def store_run)
  have x5: "stepAt ?xs 0 = 100" by (simp add: stepAt_def store_run)
  note t = compaction_evicts_at_run_end[of 51 ?ys 60 0 4 ?xs 60 1]
  from t y1 y2 have "compressLoop (Suc 51) 0 0 ?ys = Some (of_nat (Suc 51), ?ys)" by blast
  then have a: "compressLoop 52 0 0 ?ys = Some (52, ?ys)" by simp
  from t x1 x2 x3 x4
  have "compressLoop (Suc (0 + 4)) 60 1 ?xs =
        (if MERGE_COUNT \<le> 1 + of_nat 4
         then compressLoop 0 (stepAt ?xs 0) 2 (erase (0 + 2) ?xs)
         else compressLoop 0 (stepAt ?xs 0) 1 ?xs)"
    by blast
  moreover have "MERGE_COUNT \<le> 1 + of_nat 4" by (simp add: MERGE_COUNT_def)
  moreover have "Suc (0 + 4) = 5" by simp
  ultimately have b: "compressLoop 5 60 1 ?xs = Some (2, erase 2 ?xs)"
    by (simp only: if_True compressLoop.simps(1) add_0)
  have c: "map cycles (erase 2 ?xs) = [0, 100, 220, 280, 340, 400]"
    by (simp add: store_run erase_def)
  from a b c show ?thesis by blast
qed

text \<open>
  The claim as written fails: in the full store of uniform 60-cycle spacing the scan
  meets a run of 52 equal steps, far beyond \<open>MERGE_COUNT\<close>, and evicts nothing.
\<close>

theorem compaction_uniform_counterexample:
  "compressLoop (MAX_SIZE - SINGLE_STEPS) 0 0 (myStateList (storeAt (uniformClocks MAX_SIZE)))
     = Some (52, myStateList (storeAt (uniformClocks MAX_SIZE)))
   \<and> map cycles (myStateList (storeAt (uniformClocks MAX_SIZE))) = uniformClocks MAX_SIZE
   \<and> length (myStateList (storeAt (uniformClocks MAX_SIZE))) = MAX_SIZE"
  by (simp add: scan_uniform_full cycles_store_uniform length_store_uniform)

subsection \<open>C7: the unit of the message\<close>

text \<open>
  Claim C7. \<open>getMessage\<close> picks the coarsest unit whose magnitude is at least 1
  (76 cycles a scanline, 262 scanlines a frame, 60 frames a second, 60 seconds a minute):
  50 cycles read "Rewind 50 cycle(s)", 152 cycles "Rewind 2 scanline(s)" and
  \<open>76 * 262 * 5\<close> cycles "Rewind 5 frame(s)". The code prints the first two, but in the
  frame branch it divides by \<open>76 * 262 * 60\<close>, the cycles of a second, so that every
  count of frames it prints is 0: five frames read "Rewind 0 frame(s)".
\<close>

theorem getMessage_frames_unit:
  "getMessage (machineAt 50) 0 = ''Rewind 50 cycle(s)''
   \<and> getMessage (machineAt 152) 0 = ''Rewind 2 scanline(s)''
   \<and> getMessage (machineAt (76 * 262 * 5)) 0 = ''Rewind 0 frame(s)''"
  by (simp add: getMessage_def machineAt_def showNat.simps)

subsection \<open>C8: the direction word of the message\<close>

text \<open>
  Claim C8. A target at or before the present reads "Rewind", a target after the
  present reads "Unwind". In the code the difference is a \<open>uInt64\<close>, the test
  \<open>diff < 0\<close> never holds, and every message starts with "Rewind": with the present at
  cycle 100 and the target at cycle 200 the difference wraps around to
  \<open>2^64 - 100\<close> cycles.
\<close>

theorem getMessage_never_unwind:
  "take 7 (getMessage sys cylcesTo) = ''Rewind ''
   \<and> getMessage (machineAt 100) 200 = ''Rewind 4288951031 minute(s)''"
proof
  have n: "\<not> tia_cycles sys - cylcesTo < 0" by simp
  show "take 7 (getMessage sys cylcesTo) = ''Rewind ''"
    unfolding getMessage_def Let_def by (simp only: n if_False) simp
  show "getMessage (machineAt 100) 200 = ''Rewind 4288951031 minute(s)''"
    by (simp add: getMessage_def machineAt_def showNat.simps)
qed

subsection \<open>C9: a failed capture changes nothing\<close>

text \<open>
  Claim C9. If either serialization call (\<open>saveState\<close> of the state manager or
  \<open>saveDisplay\<close> of the TIA) fails, \<open>addState\<close> returns false and the manager is
  exactly as before: the list of save states, the cursor and the counters are untouched,
  and no save state is inserted.
\<close>

theorem addState_capture_failed:
  "saveState sys = None \<or> saveDisplay sys = None \<Longrightarrow> addState sys m = Some (False, m)"
proof -
  assume "saveState sys = None \<or> saveDisplay sys = None"
  then have "serialize sys = None" by (simp add: serialize_None_iff)
  then show ?thesis by (simp add: addState_def)
qed

theorem addState_capture_failed_witness:
  "saveDisplay ((machineAt 400)\<lparr>saveDisplay := None\<rparr>) = None
   \<and> addState ((machineAt 400)\<lparr>saveDisplay := None\<rparr>) (storeAt [100, 200, 300])
       = Some (False, storeAt [100, 200, 300])"
  using addState_capture_failed
    [of "(machineAt 400)\<lparr>saveDisplay := None\<rparr>" "storeAt [100, 200, 300]"]
  by simp

subsection \<open>C10: the cursor\<close>

text \<open>
  Claim C10. In every reachable state \<open>myCurrentIt\<close> is the past-the-end iterator:
  \<open>addState\<close> leaves it there (a successful call assigns \<open>end()\<close>), \<open>rewindState\<close>
  and \<open>unwindState\<close> return the manager unchanged, and so the loop at the start of
  \<open>addState\<close> that discards the save states after the cursor removes nothing, also after
  a rewind.
\<close>

theorem cursor_stays_at_end:
  "reachable m \<Longrightarrow>
     myCurrentIt m = End
     \<and> discardFollowing (myCurrentIt m) (myStateList m) = Some (myStateList m)
     \<and> (\<forall>ld1 ld2 emulation sys r.
           rewindState ld1 ld2 emulation sys m = Some r \<longrightarrow> snd (snd r) = m)
     \<and> (\<forall>debugger. snd (unwindState debugger m) = m)
     \<and> (\<forall>sys r. addState sys m = Some r \<longrightarrow> myCurrentIt (snd r) = End)"
proof -
  assume r: "reachable m"
  then have c: "myCurrentIt m = End" using reachable_inv by blast
  have a: "\<forall>sys r. addState sys m = Some r \<longrightarrow> myCurrentIt (snd r) = End"
  proof (intro allI impI)
    fix sys r assume "addState sys m = Some r"
    then have "addState sys m = Some (fst r, snd r)" by simp
    from reachable.add[OF r this] show "myCurrentIt (snd r) = End"
      using reachable_inv by blast
  qed
  have w: "\<forall>ld1 ld2 emulation sys r.
           rewindState ld1 ld2 emulation sys m = Some r \<longrightarrow> snd (snd r) = m"
    using rewindState_same by (metis prod.collapse)
  have u: "\<forall>debugger. snd (unwindState debugger m) = m"
    by (simp add: unwindState_def)
  from c a w u show ?thesis by (simp add: discardFollowing_End)
qed

theorem cursor_stays_at_end_witness:
  "reachable (storeAt [100, 200, 300])
   \<and> myCurrentIt (storeAt [100, 200, 300]) = End
   \<and> discardFollowing (myCurrentIt (storeAt [100, 200, 300])) (myStateList (storeAt [100, 200, 300]))
       = Some (myStateList (storeAt [100, 200, 300]))
   \<and> (\<exists>r. rewindState loadClock loadNothing False (machineAt 350) (storeAt [100, 200, 300]) = Some r
          \<and> snd (snd r) = storeAt [100, 200, 300])
   \<and> snd (unwindState False (storeAt [100, 200, 300])) = storeAt [100, 200, 300]
   \<and> (\<exists>r. addState (machineAt 400) (storeAt [100, 200, 300]) = Some r
          \<and> myCurrentIt (snd r) = End)"
proof -
  let ?m = "storeAt [100, 200, 300]"
  have r: "reachable ?m" by (rule reachable_storeAt)
  note t = cursor_stays_at_end[OF r]
  from reachable_inv[OF r] addState_step[of ?m "machineAt 400"] obtain ok m' where
    a: "addState (machineAt 400) ?m = Some (ok, m')" by blast
  with t have "myCurrentIt (snd (ok, m')) = End" by blast
  with a have "\<exists>r. addState (machineAt 400) ?m = Some r \<and> myCurrentIt (snd r) = End"
    by blast
  moreover from t fine_rewind_123
  have "\<exists>r. rewindState loadClock loadNothing False (machineAt 350) ?m = Some r
          \<and> snd (snd r) = ?m"
    by simp
  moreover from t have "myCurrentIt ?m = End"
    and "discardFollowing (myCurrentIt ?m) (myStateList ?m) = Some (myStateList ?m)"
    and "snd (unwindState False ?m) = ?m"
    by blast+
  ultimately show ?thesis using r by blast
qed

end
